theory Spec2Isabelle
  imports Complex_Main "HOL-Library.Multiset"
begin

section \<open>The event layout engine of CustomCalendar.tsx\<close>

text \<open>
  This theory embeds \<^verbatim>\<open>calculateEventPositions\<close>
  (src/components/CustomCalendar.tsx, lines 97-286) and settles the claims of the
  specification about it.

  Modelling decisions.
  \<^item> A JavaScript \<^verbatim>\<open>Date\<close> is its time value in milliseconds, shifted to local
    wall-clock time (a fixed offset from UTC; daylight-saving jumps are outside the
    model). Date strings (\<^verbatim>\<open>toDateString\<close>, \<^verbatim>\<open>format(d, "yyyy-MM-dd")\<close>) are only
    ever compared for equality in the function, so each is represented by the number
    of the local calendar day it denotes.
  \<^item> The fields \<^verbatim>\<open>start\<close> and \<^verbatim>\<open>end\<close> of an event are strings in the source. The model
    keeps the parsed time value; \<open>None\<close> stands for a falsy field (null, undefined or
    the empty string), which is what every guard \<^verbatim>\<open>!event.start\<close> tests. Strings
    that do not parse (Invalid Date) are outside the model.
  \<^item> \<^verbatim>\<open>number\<close> values that are pixel quantities are exact rationals; IEEE rounding
    is outside the model. Where the source divides by zero the model says so.
  \<^item> Elements of the event array are event objects (never \<^verbatim>\<open>null\<close>), and the array
    itself is not \<^verbatim>\<open>null\<close>.
\<close>

subsection \<open>Dates\<close>

type_synonym date = int

definition daysFromCivil :: "int \<Rightarrow> int \<Rightarrow> int \<Rightarrow> int" where
  \<comment> \<open>number of the calendar day year-month-day, counted from 1970-01-01\<close>
  "daysFromCivil y m d =
     (let y' = (if m \<le> 2 then y - 1 else y);
          era = y' div 400;
          yoe = y' - era * 400;
          mp = (m + 9) mod 12;
          doy = (153 * mp + 2) div 5 + d - 1;
          doe = yoe * 365 + yoe div 4 - yoe div 100 + doy
      in era * 146097 + doe - 719468)"

definition newDate :: "int \<Rightarrow> int \<Rightarrow> int \<Rightarrow> int \<Rightarrow> int \<Rightarrow> date" where
  \<comment> \<open>\<^verbatim>\<open>new Date("YYYY-MM-DDTHH:MM")\<close>, a local date-time\<close>
  "newDate y m d hh mm = daysFromCivil y m d * 86400000 + hh * 3600000 + mm * 60000"

definition getTime :: "date \<Rightarrow> int" where
  "getTime d = d"

definition toDateString :: "date \<Rightarrow> int" where
  \<comment> \<open>the local calendar day; also stands for \<^verbatim>\<open>format(d, "yyyy-MM-dd")\<close>\<close>
  "toDateString d = d div 86400000"

definition getHours :: "date \<Rightarrow> int" where
  "getHours d = (d mod 86400000) div 3600000"

definition getMinutes :: "date \<Rightarrow> int" where
  "getMinutes d = (d mod 3600000) div 60000"

definition setHours :: "date \<Rightarrow> int \<Rightarrow> int \<Rightarrow> int \<Rightarrow> int \<Rightarrow> date" where
  \<comment> \<open>\<^verbatim>\<open>d.setHours(h, m, s, ms)\<close>: same local day, new time of day\<close>
  "setHours d h m s ms = toDateString d * 86400000 + h * 3600000 + m * 60000 + s * 1000 + ms"

subsection \<open>Events\<close>

text \<open>
  \<^verbatim>\<open>CalendarEvent\<close>: the fields the function reads, \<^verbatim>\<open>id\<close>, \<^verbatim>\<open>start\<close> and \<^verbatim>\<open>end\<close>
  (named \<open>e_id\<close>, \<open>e_start\<close>, \<open>e_end\<close>: \<open>id\<close> and \<open>end\<close> are taken in Isabelle). The
  other fields (title, color, type, ...) are never read by the function.
\<close>

record CalendarEvent =
  e_id :: string
  e_start :: "date option"
  e_end :: "date option"

definition endOf :: "CalendarEvent \<Rightarrow> date \<Rightarrow> date" where
  \<comment> \<open>\<^verbatim>\<open>event.end ? new Date(event.end) : new Date(eventStart.getTime() + 30 * 60000)\<close>\<close>
  "endOf event eventStart =
     (case e_end event of Some en \<Rightarrow> en | None \<Rightarrow> getTime eventStart + 30 * 60000)"

definition isMultiDayEvent :: "CalendarEvent \<Rightarrow> bool" where
  "isMultiDayEvent event =
     (case e_start event of None \<Rightarrow> False
      | Some startDate \<Rightarrow>
         (case e_end event of None \<Rightarrow> False
          | Some endDate \<Rightarrow> toDateString startDate \<noteq> toDateString endDate))"

definition isContinuedFromPreviousDay :: "date \<Rightarrow> CalendarEvent \<Rightarrow> bool" where
  "isContinuedFromPreviousDay viewDate event =
     (case e_start event of None \<Rightarrow> False
      | Some startDate \<Rightarrow>
         (case e_end event of None \<Rightarrow> False
          | Some endDate \<Rightarrow>
              toDateString startDate \<noteq> toDateString viewDate \<and> isMultiDayEvent event))"

definition continuesNextDay :: "date \<Rightarrow> CalendarEvent \<Rightarrow> bool" where
  "continuesNextDay viewDate event =
     (case e_start event of None \<Rightarrow> False
      | Some startDate \<Rightarrow>
         (case e_end event of None \<Rightarrow> False
          | Some endDate \<Rightarrow>
              toDateString endDate \<noteq> toDateString viewDate \<and> isMultiDayEvent event))"

subsection \<open>Sorting\<close>

text \<open>
  \<^verbatim>\<open>events.slice().sort(cmp)\<close>. \<^verbatim>\<open>Array.prototype.sort\<close> is stable. The model is
  insertion sort with the comparator of the source: an element goes in front of the
  first element of the sorted rest that it does not compare greater than.

  On an array in which every event has a start the comparator is a consistent
  ordering, the language standard fixes the result (the one stable arrangement in
  ascending order of start), and the model returns it: lemma \<open>sortedEvents_stable\<close>
  shows that it is the stable sort of the HOL library. These are the only arrays the
  function is called with (\<open>passedEvents\<close>).

  On an array with an event without start the comparator returns 0 for that event
  and is not a consistent ordering; the standard leaves the order to the engine. The
  model's order on such an array is one possible order, not that of a particular
  engine, and no result depends on it: the statements about overlap and about skipped
  events are about the arrays the function is called with, and the statement about
  totals holds for every arrangement of the array (lemma \<open>layouts_any_arrangement\<close>).
\<close>

definition compareStart :: "CalendarEvent \<Rightarrow> CalendarEvent \<Rightarrow> int" where
  "compareStart a b =
     (case e_start a of None \<Rightarrow> 0
      | Some sa \<Rightarrow> (case e_start b of None \<Rightarrow> 0 | Some sb \<Rightarrow> getTime sa - getTime sb))"

fun insertBy :: "('a \<Rightarrow> 'a \<Rightarrow> int) \<Rightarrow> 'a \<Rightarrow> 'a list \<Rightarrow> 'a list" where
  "insertBy cmp x [] = [x]"
| "insertBy cmp x (y # ys) = (if cmp x y \<le> 0 then x # y # ys else y # insertBy cmp x ys)"

fun sortBy :: "('a \<Rightarrow> 'a \<Rightarrow> int) \<Rightarrow> 'a list \<Rightarrow> 'a list" where
  "sortBy cmp [] = []"
| "sortBy cmp (x # xs) = insertBy cmp x (sortBy cmp xs)"

definition sortedEvents :: "CalendarEvent list \<Rightarrow> CalendarEvent list" where
  "sortedEvents events = sortBy compareStart events"

subsection \<open>Overlap groups (lines 141-177)\<close>

definition overlapsWith :: "date \<Rightarrow> date \<Rightarrow> CalendarEvent \<Rightarrow> bool" where
  \<comment> \<open>the callback of \<^verbatim>\<open>currentGroup.some\<close>\<close>
  "overlapsWith eventStart eventEnd ev =
     (case e_start ev of None \<Rightarrow> False
      | Some evStart \<Rightarrow> getTime eventStart < endOf ev evStart \<and> getTime eventEnd > getTime evStart)"

fun groupEvents ::
  "CalendarEvent list \<Rightarrow> CalendarEvent list list \<Rightarrow> CalendarEvent list \<Rightarrow> CalendarEvent list list"
where
  \<comment> \<open>the \<^verbatim>\<open>forEach\<close> over the sorted events, with \<^verbatim>\<open>groups\<close> and \<^verbatim>\<open>currentGroup\<close>,
      and the final push of a non-empty \<^verbatim>\<open>currentGroup\<close>\<close>
  "groupEvents [] groups currentGroup =
     (if currentGroup \<noteq> [] then groups @ [currentGroup] else groups)"
| "groupEvents (event # rest) groups currentGroup =
     (case e_start event of None \<Rightarrow> groupEvents rest groups currentGroup
      | Some eventStart \<Rightarrow>
          if currentGroup = [] then groupEvents rest groups [event]
          else if list_ex (overlapsWith eventStart (endOf event eventStart)) currentGroup
          then groupEvents rest groups (currentGroup @ [event])
          else groupEvents rest (groups @ [currentGroup]) [event])"

definition buildGroups :: "CalendarEvent list \<Rightarrow> CalendarEvent list list" where
  "buildGroups events = groupEvents (sortedEvents events) [] []"

subsection \<open>Column packing (lines 179-245)\<close>

record Layout =
  l_event :: CalendarEvent
  l_column :: nat
  l_total :: nat
  l_isMultiDay :: bool
  l_continuesNextDay :: bool
  l_continuesFromPrevDay :: bool

definition newLayout :: "date \<Rightarrow> CalendarEvent \<Rightarrow> nat \<Rightarrow> Layout" where
  "newLayout viewDate event i =
     \<lparr> l_event = event, l_column = i, l_total = 0,
       l_isMultiDay = isMultiDayEvent event,
       l_continuesNextDay = continuesNextDay viewDate event,
       l_continuesFromPrevDay = isContinuedFromPreviousDay viewDate event \<rparr>"

fun findColumn :: "CalendarEvent list \<Rightarrow> date \<Rightarrow> nat option" where
  \<comment> \<open>the \<^verbatim>\<open>for\<close> loop over \<^verbatim>\<open>columns\<close>: the first index whose last event has ended\<close>
  "findColumn [] eventStart = None"
| "findColumn (lastEvent # columns) eventStart =
     (case e_start lastEvent of
        None \<Rightarrow> map_option Suc (findColumn columns eventStart)
      | Some lastStart \<Rightarrow>
          if eventStart \<ge> endOf lastEvent lastStart then Some 0
          else map_option Suc (findColumn columns eventStart))"

fun placeEvents ::
  "date \<Rightarrow> CalendarEvent list \<Rightarrow> CalendarEvent list \<Rightarrow> Layout list
     \<Rightarrow> CalendarEvent list \<times> Layout list"
where
  \<comment> \<open>the first \<^verbatim>\<open>group.forEach\<close>, with \<^verbatim>\<open>columns\<close> and \<^verbatim>\<open>layouts\<close>\<close>
  "placeEvents viewDate [] columns layouts = (columns, layouts)"
| "placeEvents viewDate (event # rest) columns layouts =
     (case e_start event of None \<Rightarrow> placeEvents viewDate rest columns layouts
      | Some eventStart \<Rightarrow>
          (case findColumn columns (getTime eventStart) of
             Some i \<Rightarrow>
               placeEvents viewDate rest (columns[i := event])
                 (layouts @ [newLayout viewDate event i])
           | None \<Rightarrow>
               placeEvents viewDate rest (columns @ [event])
                 (layouts @ [newLayout viewDate event (length columns)])))"

fun setTotal :: "string \<Rightarrow> nat \<Rightarrow> Layout list \<Rightarrow> Layout list" where
  \<comment> \<open>\<^verbatim>\<open>layouts.find((l) => l.event.id === id)\<close>, then \<^verbatim>\<open>layout.total = n\<close>\<close>
  "setTotal i n [] = []"
| "setTotal i n (l # ls) =
     (if e_id (l_event l) = i then l\<lparr>l_total := n\<rparr> # ls else l # setTotal i n ls)"

fun setTotals :: "CalendarEvent list \<Rightarrow> nat \<Rightarrow> Layout list \<Rightarrow> Layout list" where
  \<comment> \<open>the second \<^verbatim>\<open>group.forEach\<close>\<close>
  "setTotals [] n layouts = layouts"
| "setTotals (event # rest) n layouts = setTotals rest n (setTotal (e_id event) n layouts)"

definition layoutGroup :: "date \<Rightarrow> CalendarEvent list \<Rightarrow> Layout list \<Rightarrow> Layout list" where
  \<comment> \<open>the body of \<^verbatim>\<open>groups.forEach\<close>\<close>
  "layoutGroup viewDate grp layouts =
     (case placeEvents viewDate grp [] layouts of
        (columns, layouts') \<Rightarrow> setTotals grp (length columns) layouts')"

fun layoutGroups :: "date \<Rightarrow> CalendarEvent list list \<Rightarrow> Layout list \<Rightarrow> Layout list" where
  "layoutGroups viewDate [] layouts = layouts"
| "layoutGroups viewDate (grp # groups) layouts =
     layoutGroups viewDate groups (layoutGroup viewDate grp layouts)"

definition computeLayouts :: "CalendarEvent list \<Rightarrow> date \<Rightarrow> Layout list" where
  \<comment> \<open>the array \<^verbatim>\<open>layouts\<close> when line 247 is reached\<close>
  "computeLayouts events viewDate = layoutGroups viewDate (buildGroups events) []"

subsection \<open>Pixel projection (lines 247-285)\<close>

text \<open>
  The returned objects. \<open>p_left\<close> and \<open>p_width\<close> are \<open>None\<close> where the source divides
  by a total of zero (the JavaScript values are then \<^verbatim>\<open>Infinity\<close> or \<^verbatim>\<open>NaN\<close>).
\<close>

record Positioned =
  p_event :: CalendarEvent
  p_top :: rat
  p_height :: rat
  p_left :: "rat option"
  p_width :: "rat option"
  p_isMultiDay :: bool
  p_continuesNextDay :: bool
  p_continuesFromPrevDay :: bool

definition adjustedStartTime :: "date \<Rightarrow> Layout \<Rightarrow> date \<Rightarrow> date" where
  "adjustedStartTime viewDate item eventStart =
     (if l_continuesFromPrevDay item then viewDate else eventStart)"

definition adjustedEndTime :: "date \<Rightarrow> Layout \<Rightarrow> date \<Rightarrow> date" where
  "adjustedEndTime viewDate item eventEnd =
     (let nextDayStart = setHours viewDate 23 59 59 999
      in if l_continuesNextDay item then nextDayStart else eventEnd)"

definition minutesOf :: "date \<Rightarrow> int" where
  \<comment> \<open>\<^verbatim>\<open>d.getHours() * 60 + d.getMinutes()\<close>\<close>
  "minutesOf d = getHours d * 60 + getMinutes d"

definition position :: "rat \<Rightarrow> rat \<Rightarrow> date \<Rightarrow> Layout \<Rightarrow> Positioned option" where
  \<comment> \<open>the callback of \<^verbatim>\<open>layouts.map\<close>; \<open>None\<close> is its \<^verbatim>\<open>null\<close>\<close>
  "position startHour hourHeight viewDate item =
     (case e_start (l_event item) of None \<Rightarrow> None
      | Some eventStart \<Rightarrow>
          (let eventEnd = endOf (l_event item) eventStart;
               startMinutes = minutesOf (adjustedStartTime viewDate item eventStart);
               endMinutes = minutesOf (adjustedEndTime viewDate item eventEnd);
               top = ((of_int startMinutes - startHour * 60) / 60) * hourHeight;
               height = (of_int (endMinutes - startMinutes) / 60) * hourHeight;
               widthPercentage =
                 (if l_total item = 0 then None else Some (100 / of_nat (l_total item)));
               leftPercentage = map_option (\<lambda>w. of_nat (l_column item) * w) widthPercentage
           in Some \<lparr> p_event = l_event item, p_top = top, p_height = height,
                     p_left = leftPercentage, p_width = widthPercentage,
                     p_isMultiDay = l_isMultiDay item,
                     p_continuesNextDay = l_continuesNextDay item,
                     p_continuesFromPrevDay = l_continuesFromPrevDay item \<rparr>))"

definition calculateEventPositions ::
  "CalendarEvent list \<Rightarrow> rat \<Rightarrow> rat \<Rightarrow> date \<Rightarrow> Positioned list"
where
  "calculateEventPositions events startHour hourHeight viewDate =
     (if events = [] then []
      else List.map_filter (position startHour hourHeight viewDate)
             (computeLayouts events viewDate))"

subsection \<open>The calls (lines 1102-1107 and 1322-1327)\<close>

text \<open>
  The function is local to the module and is called at two places, by the week view
  and by the day view. Both pass \<^verbatim>\<open>list.filter(event => event && event.start)\<close> as the
  array of events, so the function only ever receives events that have a start.
\<close>

definition passedEvents :: "CalendarEvent list \<Rightarrow> CalendarEvent list" where
  \<comment> \<open>\<^verbatim>\<open>dayEvents.filter(event => event && event.start)\<close>\<close>
  "passedEvents dayEvents = filter (\<lambda>event. e_start event \<noteq> None) dayEvents"

definition callSiteLayouts ::
  "CalendarEvent list \<Rightarrow> rat \<Rightarrow> rat \<Rightarrow> date \<Rightarrow> Positioned list"
where
  \<comment> \<open>\<^verbatim>\<open>const layouts = calculateEventPositions(dayEvents.filter(...), startHour,
      hourHeight, dayItem)\<close>\<close>
  "callSiteLayouts dayEvents startHour hourHeight dayItem =
     calculateEventPositions (passedEvents dayEvents) startHour hourHeight dayItem"

section \<open>Notions of the specification\<close>

text \<open>
  The effective interval of an event that has a start: its start, and its end with
  the default of thirty minutes. Both are read only on events with a start.
\<close>

definition hasStart :: "CalendarEvent \<Rightarrow> bool" where
  "hasStart e = (e_start e \<noteq> None)"

definition effectiveStart :: "CalendarEvent \<Rightarrow> date" where
  "effectiveStart e = the (e_start e)"

definition effectiveEnd :: "CalendarEvent \<Rightarrow> date" where
  "effectiveEnd e = endOf e (the (e_start e))"

definition startsBefore :: "CalendarEvent \<Rightarrow> CalendarEvent \<Rightarrow> bool" where
  "startsBefore a b = (the (e_start a) \<le> the (e_start b))"

text \<open>
  The placements of one overlap cluster, in the order in which they are made, and the
  number of columns the cluster has opened when all its events are placed.
\<close>

definition placedIn :: "date \<Rightarrow> CalendarEvent list \<Rightarrow> Layout list" where
  "placedIn viewDate g = snd (placeEvents viewDate g [] [])"

definition columnsOpened :: "date \<Rightarrow> CalendarEvent list \<Rightarrow> nat" where
  "columnsOpened viewDate g = length (fst (placeEvents viewDate g [] []))"

definition placement :: "Layout \<Rightarrow> CalendarEvent \<times> nat" where
  "placement l = (l_event l, l_column l)"

definition layoutId :: "Layout \<Rightarrow> string" where
  "layoutId l = e_id (l_event l)"

definition groupLayouts :: "date \<Rightarrow> CalendarEvent list \<Rightarrow> Layout list" where
  "groupLayouts viewDate g =
     map (\<lambda>l. l\<lparr>l_total := columnsOpened viewDate g\<rparr>) (placedIn viewDate g)"

text \<open>
  No two placements of a list that share a column overlap: the one placed later starts
  at or after the end of the one placed earlier.
\<close>

definition columnsDisjoint :: "Layout list \<Rightarrow> bool" where
  "columnsDisjoint ls =
     (\<forall>j<length ls. \<forall>i<j. l_column (ls ! i) = l_column (ls ! j)
        \<longrightarrow> effectiveEnd (l_event (ls ! i)) \<le> effectiveStart (l_event (ls ! j)))"

text \<open>Two auxiliary notions of the proof that packing keeps columns disjoint.\<close>

definition freesBefore :: "CalendarEvent \<Rightarrow> CalendarEvent \<Rightarrow> bool" where
  "freesBefore L e =
     (effectiveEnd L \<le> effectiveStart e \<longrightarrow> effectiveStart L \<le> effectiveStart e)"

definition packInv :: "CalendarEvent list \<Rightarrow> Layout list \<Rightarrow> bool" where
  "packInv columns ls =
     (\<forall>i<length ls. l_column (ls ! i) < length columns \<and>
        (effectiveEnd (l_event (ls ! i)) \<le> effectiveStart (columns ! l_column (ls ! i)) \<or>
         effectiveEnd (l_event (ls ! i)) \<le> effectiveEnd (columns ! l_column (ls ! i))))"









text \<open>What a layout says about its event: the event, its column and its total.\<close>

definition summary :: "Layout \<Rightarrow> CalendarEvent \<times> nat \<times> nat" where
  "summary l = (l_event l, l_column l, l_total l)"

text \<open>The continuation flags of a layout are those of its event.\<close>

definition fromEvent :: "date \<Rightarrow> Layout \<Rightarrow> bool" where
  "fromEvent viewDate l =
     (l_isMultiDay l = isMultiDayEvent (l_event l) \<and>
      l_continuesNextDay l = continuesNextDay viewDate (l_event l) \<and>
      l_continuesFromPrevDay l = isContinuedFromPreviousDay viewDate (l_event l))"

text \<open>An event with start \<open>s\<close> and effective end \<open>en\<close>.\<close>

definition sameInterval :: "date \<Rightarrow> date \<Rightarrow> CalendarEvent \<Rightarrow> bool" where
  "sameInterval s en e = (e_start e = Some s \<and> endOf e s = en)"

subsection \<open>Example events\<close>

definition evA :: CalendarEvent where
  "evA = \<lparr> e_id = ''A'', e_start = Some (newDate 2023 6 1 9 0),
           e_end = Some (newDate 2023 6 1 10 0) \<rparr>"

definition evB :: CalendarEvent where
  "evB = \<lparr> e_id = ''B'', e_start = Some (newDate 2023 6 1 9 30),
           e_end = Some (newDate 2023 6 1 10 30) \<rparr>"

definition evC :: CalendarEvent where
  "evC = \<lparr> e_id = ''C'', e_start = Some (newDate 2023 6 1 10 15),
           e_end = Some (newDate 2023 6 1 11 0) \<rparr>"

text \<open>
  A list with an event without start (\<open>evN\<close>) and an event whose end lies before its
  start (\<open>evR\<close>).
\<close>

definition evP :: CalendarEvent where
  "evP = \<lparr> e_id = ''P'', e_start = Some (newDate 2023 6 1 9 0),
           e_end = Some (newDate 2023 6 1 12 0) \<rparr>"

definition evQ :: CalendarEvent where
  "evQ = \<lparr> e_id = ''Q'', e_start = Some (newDate 2023 6 1 9 10),
           e_end = Some (newDate 2023 6 1 10 0) \<rparr>"

definition evR :: CalendarEvent where
  "evR = \<lparr> e_id = ''R'', e_start = Some (newDate 2023 6 1 10 0),
           e_end = Some (newDate 2023 6 1 9 30) \<rparr>"

definition evN :: CalendarEvent where
  "evN = \<lparr> e_id = ''N'', e_start = None, e_end = None \<rparr>"

definition evS :: CalendarEvent where
  "evS = \<lparr> e_id = ''S'', e_start = Some (newDate 2023 6 1 9 40),
           e_end = Some (newDate 2023 6 1 11 0) \<rparr>"

text \<open>A multi-day event, a single-day event and an event without end.\<close>

definition evM :: CalendarEvent where
  "evM = \<lparr> e_id = ''M'', e_start = Some (newDate 2023 6 1 22 0),
           e_end = Some (newDate 2023 6 3 2 0) \<rparr>"

definition evT :: CalendarEvent where
  "evT = \<lparr> e_id = ''T'', e_start = Some (newDate 2023 6 1 10 0),
           e_end = Some (newDate 2023 6 1 11 30) \<rparr>"

definition evL :: CalendarEvent where
  "evL = \<lparr> e_id = ''L'', e_start = Some (newDate 2023 6 1 23 45), e_end = None \<rparr>"

text \<open>An event that starts when \<open>evA\<close> ends.\<close>

definition evD :: CalendarEvent where
  "evD = \<lparr> e_id = ''D'', e_start = Some (newDate 2023 6 1 10 0),
           e_end = Some (newDate 2023 6 1 11 0) \<rparr>"

text \<open>Two events, the later one first.\<close>

definition evX :: CalendarEvent where
  "evX = \<lparr> e_id = ''X'', e_start = Some (newDate 2023 6 1 10 0),
           e_end = Some (newDate 2023 6 1 11 0) \<rparr>"

definition evY :: CalendarEvent where
  "evY = \<lparr> e_id = ''Y'', e_start = Some (newDate 2023 6 1 5 0),
           e_end = Some (newDate 2023 6 1 12 0) \<rparr>"

text \<open>Two events of length zero, and three events with the same non-empty interval.\<close>

definition evZ1 :: CalendarEvent where
  "evZ1 = \<lparr> e_id = ''Z1'', e_start = Some (newDate 2023 6 1 9 0),
            e_end = Some (newDate 2023 6 1 9 0) \<rparr>"

definition evZ2 :: CalendarEvent where
  "evZ2 = \<lparr> e_id = ''Z2'', e_start = Some (newDate 2023 6 1 9 0),
            e_end = Some (newDate 2023 6 1 9 0) \<rparr>"

definition evI1 :: CalendarEvent where
  "evI1 = \<lparr> e_id = ''I1'', e_start = Some (newDate 2023 6 1 9 0),
            e_end = Some (newDate 2023 6 1 9 30) \<rparr>"

definition evI2 :: CalendarEvent where
  "evI2 = \<lparr> e_id = ''I2'', e_start = Some (newDate 2023 6 1 9 0), e_end = None \<rparr>"

definition evI3 :: CalendarEvent where
  "evI3 = \<lparr> e_id = ''I3'', e_start = Some (newDate 2023 6 1 9 0),
            e_end = Some (newDate 2023 6 1 9 30) \<rparr>"

section \<open>Properties of the stages\<close>

subsection \<open>Sorting\<close>

lemma sortBy_run: "successively (\<lambda>a b. cmp a b \<le> 0) xs \<Longrightarrow> sortBy cmp xs = xs"
proof (induction xs)
  case Nil
  then show ?case by simp
next
  case (Cons x xs)
  then show ?case by (cases xs) auto
qed

lemma mset_insertBy: "mset (insertBy cmp x ys) = add_mset x (mset ys)"
  by (induction ys) auto

lemma mset_sortBy: "mset (sortBy cmp xs) = mset xs"
  by (induction xs) (auto simp: mset_insertBy)

lemma set_sortBy: "set (sortBy cmp xs) = set xs"
  using mset_sortBy [of cmp xs] by (metis set_mset_mset)

lemma compareStart_le:
  "hasStart a \<Longrightarrow> hasStart b \<Longrightarrow> (compareStart a b \<le> 0) = startsBefore a b"
  by (auto simp: compareStart_def hasStart_def startsBefore_def getTime_def)

lemma sorted_insertBy:
  "hasStart x \<Longrightarrow> \<forall>y\<in>set ys. hasStart y \<Longrightarrow> sorted_wrt startsBefore ys
     \<Longrightarrow> sorted_wrt startsBefore (insertBy compareStart x ys)"
proof (induction ys)
  case Nil
  then show ?case by simp
next
  case (Cons y ys)
  have tr: "\<And>a b c. startsBefore a b \<Longrightarrow> startsBefore b c \<Longrightarrow> startsBefore a c"
    by (auto simp: startsBefore_def)
  show ?case
  proof (cases "compareStart x y \<le> 0")
    case True
    with Cons.prems have xy: "startsBefore x y" by (simp add: compareStart_le)
    with Cons.prems tr show ?thesis using True by auto
  next
    case False
    with Cons.prems have yx: "startsBefore y x"
      by (auto simp: compareStart_le startsBefore_def)
    have "set (insertBy compareStart x ys) = insert x (set ys)"
      using mset_insertBy [of compareStart x ys] by (metis set_mset_add_mset_insert set_mset_mset)
    with Cons yx False show ?thesis by auto
  qed
qed

lemma sorted_sortedEvents:
  "\<forall>e\<in>set events. hasStart e \<Longrightarrow> sorted_wrt startsBefore (sortedEvents events)"
  unfolding sortedEvents_def
  by (induction events) (auto simp: sorted_insertBy set_sortBy)

lemma insertBy_insort:
  "hasStart x \<Longrightarrow> \<forall>y\<in>set ys. hasStart y \<Longrightarrow>
     insertBy compareStart x ys = insort_key effectiveStart x ys"
  by (induction ys)
    (auto simp: compareStart_def hasStart_def effectiveStart_def getTime_def)

lemma sortedEvents_stable:
  "\<forall>e\<in>set events. hasStart e \<Longrightarrow> sortedEvents events = sort_key effectiveStart events"
  unfolding sortedEvents_def
proof (induction events)
  case Nil
  then show ?case by simp
next
  case (Cons x xs)
  then have "sortBy compareStart xs = sort_key effectiveStart xs" by simp
  moreover have "\<forall>y\<in>set (sortBy compareStart xs). hasStart y"
    using Cons.prems by (simp add: set_sortBy)
  ultimately show ?case
    using Cons.prems insertBy_insort [of x "sortBy compareStart xs"]
    by (simp add: sort_key_def)
qed

lemma groupEvents_concat:
  "concat (groupEvents xs gs cur) = concat gs @ cur @ filter hasStart xs"
  by (induction xs gs cur rule: groupEvents.induct) (auto simp: hasStart_def split: option.splits)

lemma buildGroups_concat: "concat (buildGroups events) = filter hasStart (sortedEvents events)"
  by (simp add: buildGroups_def groupEvents_concat)

lemma sorted_wrt_concat_elem:
  "sorted_wrt R (concat gs) \<Longrightarrow> g \<in> set gs \<Longrightarrow> sorted_wrt R g"
  by (induction gs) (auto simp: sorted_wrt_append)

lemma buildGroups_hasStart:
  "g \<in> set (buildGroups events) \<Longrightarrow> e \<in> set g \<Longrightarrow> hasStart e"
proof -
  assume "g \<in> set (buildGroups events)" "e \<in> set g"
  then have "e \<in> set (concat (buildGroups events))" by auto
  then show ?thesis by (simp add: buildGroups_concat)
qed

lemma buildGroups_subset:
  "g \<in> set (buildGroups events) \<Longrightarrow> e \<in> set g \<Longrightarrow> e \<in> set events"
proof -
  assume "g \<in> set (buildGroups events)" "e \<in> set g"
  then have "e \<in> set (concat (buildGroups events))" by auto
  then show ?thesis by (simp add: buildGroups_concat sortedEvents_def set_sortBy)
qed

lemma buildGroups_sorted:
  assumes "\<forall>e\<in>set events. hasStart e" "g \<in> set (buildGroups events)"
  shows "sorted_wrt startsBefore g"
proof -
  have "sorted_wrt startsBefore (filter hasStart (sortedEvents events))"
    using sorted_sortedEvents [OF assms(1)] by (rule sorted_wrt_filter)
  then show ?thesis using assms(2) by (simp add: buildGroups_concat [symmetric] sorted_wrt_concat_elem)
qed

subsection \<open>Packing\<close>

lemma findColumn_Some:
  "findColumn columns s = Some i \<Longrightarrow>
     i < length columns \<and> hasStart (columns ! i) \<and> effectiveEnd (columns ! i) \<le> s"
proof (induction columns arbitrary: i)
  case Nil
  then show ?case by simp
next
  case (Cons c columns)
  then show ?case
    by (cases i) (auto simp: hasStart_def effectiveEnd_def split: option.splits if_splits)
qed

lemma findColumn_first:
  "findColumn columns s = Some i \<Longrightarrow> j < i \<Longrightarrow>
     \<not> (hasStart (columns ! j) \<and> effectiveEnd (columns ! j) \<le> s)"
proof (induction columns arbitrary: i j)
  case Nil
  then show ?case by simp
next
  case (Cons c columns)
  then show ?case
    by (cases i; cases j) (auto simp: hasStart_def effectiveEnd_def split: option.splits if_splits)
qed

lemma findColumn_None:
  "(findColumn columns s = None) =
     (\<forall>j<length columns. \<not> (hasStart (columns ! j) \<and> effectiveEnd (columns ! j) \<le> s))"
proof (induction columns)
  case Nil
  then show ?case by simp
next
  case (Cons c columns)
  show ?case
    by (auto simp: Cons.IH hasStart_def effectiveEnd_def nth_Cons less_Suc_eq_0_disj
        split: option.splits nat.splits)
qed

lemma placeEvents_append:
  "placeEvents vd g columns ls =
     (fst (placeEvents vd g columns []), ls @ snd (placeEvents vd g columns []))"
proof (induction g arbitrary: columns ls)
  case Nil
  then show ?case by simp
next
  case (Cons e g)
  show ?case
  proof (cases "e_start e")
    case None
    then show ?thesis using Cons.IH [of columns ls] by simp
  next
    case (Some s)
    show ?thesis
    proof (cases "findColumn columns (getTime s)")
      case None
      then show ?thesis
        using Some Cons.IH [of "columns @ [e]" "ls @ [newLayout vd e (length columns)]"]
          Cons.IH [of "columns @ [e]" "[newLayout vd e (length columns)]"]
        by simp
    next
      case (Some i)
      then show ?thesis
        using \<open>e_start e = Some s\<close> Cons.IH [of "columns[i := e]" "ls @ [newLayout vd e i]"]
          Cons.IH [of "columns[i := e]" "[newLayout vd e i]"]
        by simp
    qed
  qed
qed

lemma columnsDisjoint_snoc:
  "columnsDisjoint (ls @ [l]) =
     (columnsDisjoint ls \<and>
      (\<forall>i<length ls. l_column (ls ! i) = l_column l
         \<longrightarrow> effectiveEnd (l_event (ls ! i)) \<le> effectiveStart (l_event l)))"
  unfolding columnsDisjoint_def
  by (auto simp: nth_append less_Suc_eq)

lemma pack_step_reuse:
  assumes inv: "packInv columns ls" and dis: "columnsDisjoint ls"
    and i: "i < length columns" and free: "effectiveEnd (columns ! i) \<le> effectiveStart e"
    and fb: "freesBefore (columns ! i) e"
    and l: "l_event l = e" "l_column l = i"
  shows "packInv (columns[i := e]) (ls @ [l]) \<and> columnsDisjoint (ls @ [l])"
proof -
  have le: "effectiveStart (columns ! i) \<le> effectiveStart e"
    using fb free by (simp add: freesBefore_def)
  have old: "effectiveEnd (l_event (ls ! k)) \<le> effectiveStart e"
    if "k < length ls" "l_column (ls ! k) = i" for k
    using inv that le free unfolding packInv_def by force
  have d: "columnsDisjoint (ls @ [l])"
    using dis old l by (simp add: columnsDisjoint_snoc)
  have p: "packInv (columns[i := e]) (ls @ [l])"
    unfolding packInv_def
  proof (intro allI impI)
    fix k assume k: "k < length (ls @ [l])"
    show "l_column ((ls @ [l]) ! k) < length (columns[i := e]) \<and>
       (effectiveEnd (l_event ((ls @ [l]) ! k))
          \<le> effectiveStart (columns[i := e] ! l_column ((ls @ [l]) ! k)) \<or>
        effectiveEnd (l_event ((ls @ [l]) ! k))
          \<le> effectiveEnd (columns[i := e] ! l_column ((ls @ [l]) ! k)))"
    proof (cases "k < length ls")
      case True
      then show ?thesis
        using inv old [of k] i unfolding packInv_def
        by (cases "l_column (ls ! k) = i") (auto simp: nth_append)
    next
      case False
      with k have "k = length ls" by simp
      then show ?thesis using l i by simp
    qed
  qed
  from p d show ?thesis by simp
qed

lemma pack_step_new:
  assumes inv: "packInv columns ls" and dis: "columnsDisjoint ls"
    and l: "l_event l = e" "l_column l = length columns"
  shows "packInv (columns @ [e]) (ls @ [l]) \<and> columnsDisjoint (ls @ [l])"
proof -
  have lt: "l_column (ls ! k) < length columns" if "k < length ls" for k
    using inv that unfolding packInv_def by simp
  have d: "columnsDisjoint (ls @ [l])"
    using dis lt l by (fastforce simp: columnsDisjoint_snoc)
  have p: "packInv (columns @ [e]) (ls @ [l])"
    unfolding packInv_def
  proof (intro allI impI)
    fix k assume k: "k < length (ls @ [l])"
    show "l_column ((ls @ [l]) ! k) < length (columns @ [e]) \<and>
       (effectiveEnd (l_event ((ls @ [l]) ! k))
          \<le> effectiveStart ((columns @ [e]) ! l_column ((ls @ [l]) ! k)) \<or>
        effectiveEnd (l_event ((ls @ [l]) ! k))
          \<le> effectiveEnd ((columns @ [e]) ! l_column ((ls @ [l]) ! k)))"
    proof (cases "k < length ls")
      case True
      then show ?thesis
        using inv lt [of k] unfolding packInv_def by (auto simp: nth_append)
    next
      case False
      with k have "k = length ls" by simp
      then show ?thesis using l by simp
    qed
  qed
  from p d show ?thesis by simp
qed

lemma placeEvents_disjoint:
  assumes "\<forall>e\<in>set g. hasStart e" "sorted_wrt freesBefore g"
    "\<forall>L\<in>set columns. \<forall>e\<in>set g. freesBefore L e"
    "packInv columns ls" "columnsDisjoint ls"
  shows "columnsDisjoint (snd (placeEvents vd g columns ls))"
  using assms
proof (induction g arbitrary: columns ls)
  case Nil
  then show ?case by simp
next
  case (Cons e g)
  from Cons.prems(1) obtain s where s: "e_start e = Some s" by (auto simp: hasStart_def)
  have es: "effectiveStart e = s" by (simp add: effectiveStart_def s)
  have g1: "\<forall>e\<in>set g. hasStart e" and g2: "sorted_wrt freesBefore g"
    and g3: "\<forall>e'\<in>set g. freesBefore e e'"
    using Cons.prems by auto
  show ?case
  proof (cases "findColumn columns (getTime s)")
    case None
    have step: "packInv (columns @ [e]) (ls @ [newLayout vd e (length columns)]) \<and>
        columnsDisjoint (ls @ [newLayout vd e (length columns)])"
      by (rule pack_step_new [OF Cons.prems(4,5)]) (simp_all add: newLayout_def)
    have "\<forall>L\<in>set (columns @ [e]). \<forall>e'\<in>set g. freesBefore L e'"
      using Cons.prems(3) g3 by auto
    from Cons.IH [OF g1 g2 this] step show ?thesis using None s by simp
  next
    case (Some i)
    from findColumn_Some [OF Some] have i: "i < length columns"
      and free: "effectiveEnd (columns ! i) \<le> effectiveStart e"
      by (simp_all add: es getTime_def)
    have fb: "freesBefore (columns ! i) e" using Cons.prems(3) i by simp
    have step: "packInv (columns[i := e]) (ls @ [newLayout vd e i]) \<and>
        columnsDisjoint (ls @ [newLayout vd e i])"
      by (rule pack_step_reuse [OF Cons.prems(4,5) i free fb]) (simp_all add: newLayout_def)
    have "set (columns[i := e]) \<subseteq> insert e (set columns)" by (rule set_update_subset_insert)
    then have "\<forall>L\<in>set (columns[i := e]). \<forall>e'\<in>set g. freesBefore L e'"
      using Cons.prems(3) g3 by auto
    from Cons.IH [OF g1 g2 this] step show ?thesis using Some s by simp
  qed
qed

lemma placement_setTotal: "map placement (setTotal i n ls) = map placement ls"
  by (induction ls) (auto simp: placement_def)

lemma placement_setTotals: "map placement (setTotals g n ls) = map placement ls"
  by (induction g arbitrary: ls) (auto simp: placement_setTotal)

lemma layoutGroup_eq:
  "layoutGroup vd g ls = setTotals g (columnsOpened vd g) (ls @ placedIn vd g)"
  unfolding layoutGroup_def columnsOpened_def placedIn_def
  by (subst placeEvents_append) simp

lemma placement_layoutGroups:
  "map placement (layoutGroups vd gs ls) =
     map placement ls @ concat (map (\<lambda>g. map placement (placedIn vd g)) gs)"
  by (induction gs arbitrary: ls) (auto simp: layoutGroup_eq placement_setTotals)

lemma placement_computeLayouts:
  "map placement (computeLayouts events vd) =
     concat (map (\<lambda>g. map placement (placedIn vd g)) (buildGroups events))"
  by (simp add: computeLayouts_def placement_layoutGroups)

lemma sorted_wrt_all: "(\<And>x y. x \<in> set xs \<Longrightarrow> y \<in> set xs \<Longrightarrow> R x y) \<Longrightarrow> sorted_wrt R xs"
  by (induction xs) auto

lemma packInv_Nil: "packInv [] []"
  by (simp add: packInv_def)

lemma columnsDisjoint_Nil: "columnsDisjoint []"
  by (simp add: columnsDisjoint_def)

lemma group_columnsDisjoint:
  assumes h: "(\<forall>e\<in>set events. e_start e \<noteq> None) \<or>
      (\<forall>e\<in>set events. \<forall>s. e_start e = Some s \<longrightarrow> s \<le> endOf e s)"
    and g: "g \<in> set (buildGroups events)"
  shows "columnsDisjoint (placedIn vd g)"
proof -
  have hs: "\<forall>e\<in>set g. hasStart e" using buildGroups_hasStart [OF g] by blast
  have sw: "sorted_wrt freesBefore g"
    using h
  proof
    assume "\<forall>e\<in>set events. e_start e \<noteq> None"
    then have "\<forall>e\<in>set events. hasStart e" by (simp add: hasStart_def)
    from buildGroups_sorted [OF this g] show ?thesis
      by (rule sorted_wrt_mono_rel [rotated])
        (simp add: startsBefore_def freesBefore_def effectiveStart_def)
  next
    assume ni: "\<forall>e\<in>set events. \<forall>s. e_start e = Some s \<longrightarrow> s \<le> endOf e s"
    have "effectiveStart e \<le> effectiveEnd e" if "e \<in> set g" for e
    proof -
      from that hs obtain s where "e_start e = Some s" by (auto simp: hasStart_def)
      moreover have "e \<in> set events" using buildGroups_subset [OF g that] .
      ultimately show ?thesis using ni by (simp add: effectiveStart_def effectiveEnd_def)
    qed
    then show ?thesis
      by (intro sorted_wrt_all) (fastforce simp: freesBefore_def)
  qed
  show ?thesis unfolding placedIn_def
    by (rule placeEvents_disjoint [OF hs sw _ packInv_Nil columnsDisjoint_Nil]) simp
qed

subsection \<open>Totals\<close>

lemma setTotal_skip:
  "i \<notin> layoutId ` set done \<Longrightarrow> setTotal i n (done @ ls) = done @ setTotal i n ls"
  by (induction "done") (auto simp: layoutId_def)

lemma setTotals_block:
  "distinct (map layoutId rest) \<Longrightarrow> layoutId ` set done \<inter> layoutId ` set rest = {} \<Longrightarrow>
     setTotals (map l_event rest) n (done @ rest) = done @ map (\<lambda>l. l\<lparr>l_total := n\<rparr>) rest"
proof (induction rest arbitrary: "done")
  case Nil
  then show ?case by simp
next
  case (Cons l rest)
  have a: "setTotal (e_id (l_event l)) n (done @ l # rest) = done @ l\<lparr>l_total := n\<rparr> # rest"
    using Cons.prems(2) by (subst setTotal_skip) (auto simp: layoutId_def)
  have b: "layoutId ` set (done @ [l\<lparr>l_total := n\<rparr>]) \<inter> layoutId ` set rest = {}"
    using Cons.prems by (auto simp: layoutId_def)
  have c: "distinct (map layoutId rest)" using Cons.prems(1) by simp
  show ?case using Cons.IH [OF c b] a by simp
qed

lemma placeEvents_events:
  "map l_event (snd (placeEvents vd g columns [])) = filter hasStart g"
proof (induction g arbitrary: columns)
  case Nil
  then show ?case by simp
next
  case (Cons e g)
  show ?case
  proof (cases "e_start e")
    case None
    then show ?thesis using Cons.IH [of columns] by (simp add: hasStart_def)
  next
    case (Some s)
    show ?thesis
    proof (cases "findColumn columns (getTime s)")
      case None
      then show ?thesis
        using Some Cons.IH [of "columns @ [e]"]
          placeEvents_append [of vd g "columns @ [e]" "[newLayout vd e (length columns)]"]
        by (simp add: hasStart_def newLayout_def)
    next
      case (Some i)
      then show ?thesis
        using \<open>e_start e = Some s\<close> Cons.IH [of "columns[i := e]"]
          placeEvents_append [of vd g "columns[i := e]" "[newLayout vd e i]"]
        by (simp add: hasStart_def newLayout_def)
    qed
  qed
qed

lemma placedIn_events: "\<forall>e\<in>set g. hasStart e \<Longrightarrow> map l_event (placedIn vd g) = g"
  by (simp add: placedIn_def placeEvents_events)

lemma layoutGroup_block:
  assumes hs: "\<forall>e\<in>set g. hasStart e" and d: "distinct (map e_id g)"
    and dj: "layoutId ` set ls \<inter> e_id ` set g = {}"
  shows "layoutGroup vd g ls = ls @ groupLayouts vd g"
proof -
  have ev: "map l_event (placedIn vd g) = g" using hs by (rule placedIn_events)
  have ids: "map layoutId (placedIn vd g) = map e_id g"
    using arg_cong [OF ev, of "map e_id"] by (simp add: layoutId_def [abs_def] comp_def)
  have 1: "distinct (map layoutId (placedIn vd g))" using d ids by simp
  have "layoutId ` set (placedIn vd g) = e_id ` set g"
    using arg_cong [OF ids, of set] by simp
  with dj have 2: "layoutId ` set ls \<inter> layoutId ` set (placedIn vd g) = {}" by simp
  show ?thesis
    using setTotals_block [OF 1 2, of "columnsOpened vd g"]
    by (simp add: layoutGroup_eq ev groupLayouts_def)
qed

lemma groupLayouts_ids: "\<forall>e\<in>set g. hasStart e \<Longrightarrow> layoutId ` set (groupLayouts vd g) = e_id ` set g"
proof -
  assume "\<forall>e\<in>set g. hasStart e"
  then have ev: "map l_event (placedIn vd g) = g" by (rule placedIn_events)
  have "map layoutId (groupLayouts vd g) = map e_id (map l_event (placedIn vd g))"
    by (simp add: groupLayouts_def layoutId_def comp_def)
  then have "map layoutId (groupLayouts vd g) = map e_id g" by (simp add: ev)
  from arg_cong [OF this, of set] show ?thesis by simp
qed

lemma layoutGroups_blocks:
  assumes "\<forall>g\<in>set gs. \<forall>e\<in>set g. hasStart e" "distinct (map e_id (concat gs))"
    "layoutId ` set ls \<inter> e_id ` set (concat gs) = {}"
  shows "layoutGroups vd gs ls = ls @ concat (map (groupLayouts vd) gs)"
  using assms
proof (induction gs arbitrary: ls)
  case Nil
  then show ?case by simp
next
  case (Cons g gs)
  have hs: "\<forall>e\<in>set g. hasStart e" using Cons.prems(1) by simp
  have d: "distinct (map e_id g)" using Cons.prems(2) by simp
  have dj: "layoutId ` set ls \<inter> e_id ` set g = {}" using Cons.prems(3) by auto
  have blk: "layoutGroup vd g ls = ls @ groupLayouts vd g"
    by (rule layoutGroup_block [OF hs d dj])
  have 1: "\<forall>g\<in>set gs. \<forall>e\<in>set g. hasStart e" using Cons.prems(1) by simp
  have 2: "distinct (map e_id (concat gs))" using Cons.prems(2) by simp
  have a: "e_id ` set g \<inter> e_id ` set (concat gs) = {}"
    using Cons.prems(2) by simp
  have b: "layoutId ` set ls \<inter> e_id ` set (concat gs) = {}"
    using Cons.prems(3) by (simp add: image_Un Int_Un_distrib)
  have 3: "layoutId ` set (ls @ groupLayouts vd g) \<inter> e_id ` set (concat gs) = {}"
    using a b groupLayouts_ids [OF hs, of vd] by (simp add: image_Un Int_Un_distrib2)
  show ?case using Cons.IH [OF 1 2 3] blk by simp
qed

lemma distinct_ids_groups:
  assumes "distinct (map e_id events)"
  shows "distinct (map e_id (concat (buildGroups events)))"
proof -
  have "mset (map e_id (sortedEvents events)) = mset (map e_id events)"
    by (simp add: sortedEvents_def mset_sortBy)
  then have "distinct (map e_id (sortedEvents events))"
    using assms by (metis mset_eq_imp_distinct_iff)
  then show ?thesis by (simp add: buildGroups_concat distinct_map_filter)
qed

lemma computeLayouts_blocks:
  assumes "distinct (map e_id events)"
  shows "computeLayouts events vd = concat (map (groupLayouts vd) (buildGroups events))"
proof -
  have 1: "\<forall>g\<in>set (buildGroups events). \<forall>e\<in>set g. hasStart e"
    using buildGroups_hasStart by blast
  show ?thesis
    unfolding computeLayouts_def
    using layoutGroups_blocks [OF 1 distinct_ids_groups [OF assms], of "[]" vd] by simp
qed

text \<open>
  The totals do not depend on the order in which the sort leaves the array: for every
  arrangement of an array with distinct ids the layouts are the placements of the
  clusters, each with the number of columns of its cluster as total.
\<close>

lemma layouts_any_arrangement:
  assumes "distinct (map e_id arr)"
  shows "layoutGroups vd (groupEvents arr [] []) []
           = concat (map (groupLayouts vd) (groupEvents arr [] []))"
proof -
  have c: "concat (groupEvents arr [] []) = filter hasStart arr"
    by (simp add: groupEvents_concat)
  have 1: "\<forall>g\<in>set (groupEvents arr [] []). \<forall>e\<in>set g. hasStart e"
  proof (intro ballI)
    fix g e assume "g \<in> set (groupEvents arr [] [])" "e \<in> set g"
    then have "e \<in> set (concat (groupEvents arr [] []))" by auto
    then show "hasStart e" by (simp add: c)
  qed
  have 2: "distinct (map e_id (concat (groupEvents arr [] [])))"
    using assms by (simp add: c distinct_map_filter)
  show ?thesis
    using layoutGroups_blocks [OF 1 2, of "[]" vd] by simp
qed

subsection \<open>Dates\<close>

lemma div_day: "0 \<le> r \<Longrightarrow> r < 86400000 \<Longrightarrow> (D * 86400000 + r) div 86400000 = (D::int)"
  by (simp add: div_pos_pos_trivial)

lemma mod_day: "0 \<le> r \<Longrightarrow> r < 86400000 \<Longrightarrow> (D * 86400000 + r) mod 86400000 = (r::int)"
  by (simp add: mod_pos_pos_trivial)

lemma mod_hour: "0 \<le> r \<Longrightarrow> r < 3600000 \<Longrightarrow> (K * 3600000 + r) mod 3600000 = (r::int)"
  by (simp add: mod_pos_pos_trivial)

lemma time_of_day:
  assumes "0 \<le> hh" "hh < 24" "0 \<le> mm" "mm < 60" "0 \<le> ms" "ms < 60000"
  shows "toDateString (D * 86400000 + hh * 3600000 + mm * 60000 + ms) = D"
    and "getHours (D * 86400000 + hh * 3600000 + mm * 60000 + ms) = hh"
    and "getMinutes (D * 86400000 + hh * 3600000 + mm * 60000 + ms) = mm"
proof -
  let ?r = "hh * 3600000 + mm * 60000 + ms"
  have r: "0 \<le> ?r" "?r < 86400000" using assms by auto
  have e: "D * 86400000 + hh * 3600000 + mm * 60000 + ms = D * 86400000 + ?r" by simp
  show "toDateString (D * 86400000 + hh * 3600000 + mm * 60000 + ms) = D"
    unfolding toDateString_def e using r by (rule div_day)
  have q: "0 \<le> mm * 60000 + ms" "mm * 60000 + ms < 3600000" using assms by auto
  have "?r div 3600000 = hh"
    using q by (simp add: div_pos_pos_trivial)
  then show "getHours (D * 86400000 + hh * 3600000 + mm * 60000 + ms) = hh"
    unfolding getHours_def e using r by (simp only: mod_day)
  have e2: "D * 86400000 + hh * 3600000 + mm * 60000 + ms = (D * 24 + hh) * 3600000 + (mm * 60000 + ms)"
    by simp
  have "(mm * 60000 + ms) div 60000 = mm"
    using assms by (simp add: div_pos_pos_trivial)
  then show "getMinutes (D * 86400000 + hh * 3600000 + mm * 60000 + ms) = mm"
    unfolding getMinutes_def e2 using q by (simp only: mod_hour)
qed

lemma newDate_fields:
  assumes "0 \<le> hh" "hh < 24" "0 \<le> mm" "mm < 60"
  shows "toDateString (newDate y m d hh mm) = daysFromCivil y m d"
    and "getHours (newDate y m d hh mm) = hh"
    and "getMinutes (newDate y m d hh mm) = mm"
  using time_of_day [OF assms, of 0 "daysFromCivil y m d"] by (simp_all add: newDate_def)

lemma setHours_fields:
  assumes "0 \<le> hh" "hh < 24" "0 \<le> mm" "mm < 60" "0 \<le> s" "s < 60" "0 \<le> ms" "ms < 1000"
  shows "toDateString (setHours d hh mm s ms) = toDateString d"
    and "getHours (setHours d hh mm s ms) = hh"
    and "getMinutes (setHours d hh mm s ms) = mm"
proof -
  have b: "0 \<le> s * 1000 + ms" "s * 1000 + ms < 60000" using assms by auto
  have e: "setHours d hh mm s ms
      = toDateString d * 86400000 + hh * 3600000 + mm * 60000 + (s * 1000 + ms)"
    by (simp add: setHours_def)
  show "toDateString (setHours d hh mm s ms) = toDateString d"
    and "getHours (setHours d hh mm s ms) = hh"
    and "getMinutes (setHours d hh mm s ms) = mm"
    unfolding e using time_of_day [OF assms(1-4) b] by simp_all
qed

lemma days_2023_06:
  "daysFromCivil 2023 6 1 = 19509" "daysFromCivil 2023 6 2 = 19510"
  "daysFromCivil 2023 6 3 = 19511"
  by (simp_all add: daysFromCivil_def)

subsection \<open>Single events and projection\<close>

lemma single_layout:
  "e_start e = Some s \<Longrightarrow>
   computeLayouts [e] vd = [(newLayout vd e 0)\<lparr>l_total := 1\<rparr>]"
  by (simp add: computeLayouts_def buildGroups_def sortedEvents_def layoutGroup_def newLayout_def)

text \<open>
  A view date is used with its own time of day as the displayed start of an event
  that continues from the previous day: viewed at 15:00 of 2023-06-02, \<open>evM\<close> is
  drawn from 900 pixels down.
\<close>

lemma viewDate_time_of_day:
  "map p_top (calculateEventPositions [evM] 0 60 (newDate 2023 6 2 15 0)) = [900]"
  by code_simp

lemma positioned_of_layout:
  assumes "p \<in> set (calculateEventPositions events sh hh vd)"
  obtains item where "item \<in> set (computeLayouts events vd)" "position sh hh vd item = Some p"
  using assms
  by (auto simp: calculateEventPositions_def List.map_filter_def split: if_splits)

lemma fromEvent_setTotal:
  "list_all (fromEvent vd) (setTotal i n ls) = list_all (fromEvent vd) ls"
  by (induction ls) (auto simp: fromEvent_def)

lemma fromEvent_setTotals:
  "list_all (fromEvent vd) (setTotals g n ls) = list_all (fromEvent vd) ls"
  by (induction g arbitrary: ls) (simp_all add: fromEvent_setTotal)

lemma fromEvent_placeEvents:
  "list_all (fromEvent vd) (snd (placeEvents vd g columns ls)) = list_all (fromEvent vd) ls"
  by (induction g arbitrary: columns ls)
    (simp_all add: fromEvent_def newLayout_def split: option.splits)

lemma fromEvent_layoutGroups:
  "list_all (fromEvent vd) (layoutGroups vd gs ls) = list_all (fromEvent vd) ls"
  by (induction gs arbitrary: ls)
    (simp_all add: layoutGroup_eq fromEvent_setTotals placedIn_def fromEvent_placeEvents)

lemma layout_flags:
  assumes "l \<in> set (computeLayouts events vd)"
  shows "l_isMultiDay l = isMultiDayEvent (l_event l)"
    and "l_continuesNextDay l = continuesNextDay vd (l_event l)"
    and "l_continuesFromPrevDay l = isContinuedFromPreviousDay vd (l_event l)"
proof -
  have "list_all (fromEvent vd) (computeLayouts events vd)"
    by (simp add: computeLayouts_def fromEvent_layoutGroups)
  with assms have "fromEvent vd l" by (simp add: list_all_iff)
  then show "l_isMultiDay l = isMultiDayEvent (l_event l)"
    and "l_continuesNextDay l = continuesNextDay vd (l_event l)"
    and "l_continuesFromPrevDay l = isContinuedFromPreviousDay vd (l_event l)"
    by (simp_all add: fromEvent_def)
qed

lemma computeLayouts_events:
  "map l_event (computeLayouts events vd) = concat (buildGroups events)"
proof -
  have fp: "(\<lambda>l. fst (placement l)) = l_event"
    by (simp add: placement_def)
  have "map fst (map placement (computeLayouts events vd))
      = map fst (concat (map (\<lambda>g. map placement (placedIn vd g)) (buildGroups events)))"
    by (simp only: placement_computeLayouts)
  then have "map l_event (computeLayouts events vd)
      = concat (map (\<lambda>g. map l_event (placedIn vd g)) (buildGroups events))"
    by (simp add: map_concat comp_def fp)
  also have "\<dots> = concat (map (\<lambda>g. g) (buildGroups events))"
    using buildGroups_hasStart
    by (intro arg_cong [where f = concat] map_cong refl placedIn_events) blast
  finally show ?thesis by simp
qed

lemma computeLayouts_from_input:
  assumes "item \<in> set (computeLayouts events vd)"
  shows "l_event item \<in> set events" and "hasStart (l_event item)"
proof -
  from assms have "l_event item \<in> set (map l_event (computeLayouts events vd))"
    by simp
  then have m: "l_event item \<in> set (filter hasStart (sortedEvents events))"
    by (simp only: computeLayouts_events buildGroups_concat)
  then show "l_event item \<in> set events"
    by (simp add: sortedEvents_def set_sortBy)
  from m show "hasStart (l_event item)"
    by simp
qed

lemma positions_events:
  assumes "\<forall>e\<in>set events. hasStart e"
  shows "map p_event (calculateEventPositions events sh hh vd)
           = sort_key effectiveStart events"
proof (cases "events = []")
  case True
  then show ?thesis by (simp add: calculateEventPositions_def)
next
  case False
  have 2: "map p_event (List.map_filter (position sh hh vd) ls) = map l_event ls"
    if "\<forall>l\<in>set ls. hasStart (l_event l)" for ls
    using that
    by (induction ls) (auto simp: List.map_filter_def position_def hasStart_def Let_def)
  have "\<forall>l\<in>set (computeLayouts events vd). hasStart (l_event l)"
    using computeLayouts_from_input(2) by blast
  from 2 [OF this] have "map p_event (calculateEventPositions events sh hh vd)
      = filter hasStart (sortedEvents events)"
    using False
    by (simp add: calculateEventPositions_def computeLayouts_events buildGroups_concat)
  also have "\<dots> = sortedEvents events"
    using assms by (simp add: sortedEvents_def set_sortBy)
  also have "\<dots> = sort_key effectiveStart events"
    using assms by (rule sortedEvents_stable)
  finally show ?thesis .
qed

lemma groupEvents_skips:
  "groupEvents arr gs cur = groupEvents (filter (\<lambda>e. e_start e \<noteq> None) arr) gs cur"
  by (induction arr gs cur rule: groupEvents.induct) (auto split: option.splits)



subsection \<open>Column reuse\<close>

lemma findColumn_reuse:
  assumes i: "i < length columns" and h: "hasStart (columns ! i)"
    and f: "effectiveEnd (columns ! i) \<le> s"
  shows "\<exists>k\<le>i. findColumn columns s = Some k"
proof (cases "findColumn columns s")
  case None
  with i h f show ?thesis by (simp add: findColumn_None)
next
  case (Some k)
  have "k \<le> i"
  proof (rule ccontr)
    assume "\<not> k \<le> i"
    then have "i < k" by simp
    from findColumn_first [OF Some this] h f show False by simp
  qed
  with Some show ?thesis by simp
qed

subsection \<open>Events with the same interval\<close>

lemma sortedEvents_same:
  assumes "\<forall>e\<in>set events. sameInterval s en e"
  shows "sortedEvents events = events"
proof -
  have "sorted_wrt (\<lambda>a b. compareStart a b \<le> 0) events"
    using assms by (intro sorted_wrt_all) (simp add: compareStart_def sameInterval_def)
  then have "successively (\<lambda>a b. compareStart a b \<le> 0) events"
    by (rule successively_if_sorted_wrt)
  then show ?thesis unfolding sortedEvents_def by (rule sortBy_run)
qed

lemma groupEvents_same:
  assumes "\<forall>e\<in>set xs. sameInterval s en e" "\<forall>e\<in>set cur. sameInterval s en e"
    "s < en" "cur \<noteq> []"
  shows "groupEvents xs gs cur = gs @ [cur @ xs]"
  using assms
proof (induction xs arbitrary: cur)
  case Nil
  then show ?case by simp
next
  case (Cons x xs)
  from Cons.prems(4) obtain c cs where cur: "cur = c # cs" by (cases cur) auto
  with Cons.prems(2) have c: "sameInterval s en c" by simp
  have x: "sameInterval s en x" using Cons.prems(1) by simp
  have "overlapsWith s en c"
    using c Cons.prems(3) by (simp add: overlapsWith_def sameInterval_def getTime_def)
  then have ov: "list_ex (overlapsWith s en) cur" by (simp add: cur)
  have "groupEvents (x # xs) gs cur = groupEvents xs gs (cur @ [x])"
    using x ov Cons.prems(4) by (simp add: sameInterval_def)
  also have "\<dots> = gs @ [(cur @ [x]) @ xs]"
    using Cons.prems x by (intro Cons.IH) auto
  finally show ?case by simp
qed

lemma buildGroups_same:
  assumes "\<forall>e\<in>set events. sameInterval s en e" "s < en" "events \<noteq> []"
  shows "buildGroups events = [events]"
proof -
  from assms(3) obtain x xs where e: "events = x # xs" by (cases events) auto
  have x: "sameInterval s en x" and xs: "\<forall>e\<in>set xs. sameInterval s en e"
    using assms(1) e by auto
  have "groupEvents (x # xs) [] [] = groupEvents xs [] [x]"
    using x by (simp add: sameInterval_def)
  also have "\<dots> = [] @ [[x] @ xs]"
    using xs x assms(2) by (intro groupEvents_same) auto
  finally show ?thesis
    using sortedEvents_same [OF assms(1)] by (simp add: buildGroups_def e)
qed

lemma placeEvents_same:
  assumes "\<forall>e\<in>set xs. sameInterval s en e" "\<forall>e\<in>set columns. sameInterval s en e" "s < en"
  shows "placeEvents vd xs columns ls =
     (columns @ xs, ls @ map (\<lambda>(k, e). newLayout vd e k) (enumerate (length columns) xs))"
  using assms
proof (induction xs arbitrary: columns ls)
  case Nil
  then show ?case by simp
next
  case (Cons x xs)
  have x: "e_start x = Some s" using Cons.prems(1) by (simp add: sameInterval_def)
  have "\<not> effectiveEnd (columns ! j) \<le> s" if "j < length columns" for j
  proof -
    from that Cons.prems(2) have "sameInterval s en (columns ! j)" by simp
    then show ?thesis using Cons.prems(3) by (simp add: sameInterval_def effectiveEnd_def)
  qed
  then have n: "findColumn columns s = None" by (simp add: findColumn_None)
  have "placeEvents vd (x # xs) columns ls =
      placeEvents vd xs (columns @ [x]) (ls @ [newLayout vd x (length columns)])"
    using x n by (simp add: getTime_def)
  also have "\<dots> = ((columns @ [x]) @ xs,
      (ls @ [newLayout vd x (length columns)]) @
        map (\<lambda>(k, e). newLayout vd e k) (enumerate (length (columns @ [x])) xs))"
    using Cons.prems by (intro Cons.IH) auto
  finally show ?case by simp
qed

section \<open>The claims\<close>

subsection \<open>C1: events in one column of a cluster do not overlap\<close>

text \<open>
  C1: for every list of events, the function is called with those that have a start;
  the placements are made cluster by cluster, every placed event has a start, and in
  every cluster two placements with the same column do not overlap: the one placed
  later starts at or after the effective end of the one placed earlier. An end that
  lies before the start of its event is allowed.
\<close>

theorem C1_same_column_no_overlap:
  "map placement (computeLayouts (passedEvents dayEvents) viewDate)
     = concat (map (\<lambda>g. map placement (placedIn viewDate g))
                   (buildGroups (passedEvents dayEvents))) \<and>
   (\<forall>g\<in>set (buildGroups (passedEvents dayEvents)).
      (\<forall>l\<in>set (placedIn viewDate g). e_start (l_event l) \<noteq> None) \<and>
      columnsDisjoint (placedIn viewDate g))"
proof -
  let ?events = "passedEvents dayEvents"
  have h: "(\<forall>e\<in>set ?events. e_start e \<noteq> None) \<or>
           (\<forall>e\<in>set ?events. \<forall>s. e_start e = Some s \<longrightarrow> s \<le> endOf e s)"
    by (simp add: passedEvents_def)
  have "\<forall>l\<in>set (placedIn viewDate g). e_start (l_event l) \<noteq> None"
    if g: "g \<in> set (buildGroups ?events)" for g
  proof -
    have hs: "\<forall>e\<in>set g. hasStart e" using buildGroups_hasStart [OF g] by blast
    have "set (map l_event (placedIn viewDate g)) = set g"
      by (simp only: placedIn_events [OF hs])
    with hs show ?thesis by (auto simp: hasStart_def)
  qed
  with group_columnsDisjoint [OF h] placement_computeLayouts show ?thesis
    by blast
qed

theorem C1_same_column_no_overlap_witness:
  "passedEvents [evP, evQ, evR, evN, evS] = [evP, evQ, evR, evS] \<and>
   buildGroups [evP, evQ, evR, evS] = [[evP, evQ, evS, evR]] \<and>
   map placement (placedIn (newDate 2023 6 1 0 0) [evP, evQ, evS, evR])
     = [(evP, 0), (evQ, 1), (evS, 2), (evR, 1)] \<and>
   columnsDisjoint (placedIn (newDate 2023 6 1 0 0) [evP, evQ, evS, evR])"
proof -
  have f: "passedEvents [evP, evQ, evR, evN, evS] = [evP, evQ, evR, evS]"
    by code_simp
  have g: "buildGroups [evP, evQ, evR, evS] = [[evP, evQ, evS, evR]]"
    by code_simp
  have p: "map placement (placedIn (newDate 2023 6 1 0 0) [evP, evQ, evS, evR])
     = [(evP, 0), (evQ, 1), (evS, 2), (evR, 1)]"
    by code_simp
  from C1_same_column_no_overlap [of "[evP, evQ, evR, evN, evS]" "newDate 2023 6 1 0 0"]
  have "columnsDisjoint (placedIn (newDate 2023 6 1 0 0) [evP, evQ, evS, evR])"
    by (simp add: f g)
  with f g p show ?thesis by blast
qed

subsection \<open>C2: one total per cluster\<close>

text \<open>
  C2: if the ids of the input events are pairwise distinct, the layouts are, cluster by
  cluster, the placements of the cluster, each with \<open>total\<close> equal to the number of
  columns opened in that cluster.
\<close>

theorem C2_cluster_total:
  assumes "distinct (map e_id events)"
  shows "computeLayouts events viewDate
           = concat (map (\<lambda>g. map (\<lambda>l. l\<lparr>l_total := columnsOpened viewDate g\<rparr>)
                                  (placedIn viewDate g))
                         (buildGroups events))"
  using computeLayouts_blocks [OF assms, of viewDate]
  by (simp add: groupLayouts_def [abs_def])

theorem C2_cluster_total_witness:
  "distinct (map e_id [evA, evB, evC]) \<and>
   columnsOpened (newDate 2023 6 1 0 0) [evA, evB, evC] = 2 \<and>
   map l_total (computeLayouts [evA, evB, evC] (newDate 2023 6 1 0 0)) = [2, 2, 2]"
proof -
  have d: "distinct (map e_id [evA, evB, evC])"
    by (simp add: evA_def evB_def evC_def)
  have c: "columnsOpened (newDate 2023 6 1 0 0) [evA, evB, evC] = 2"
    by code_simp
  have r: "map l_total
      (concat (map (\<lambda>g. map (\<lambda>l. l\<lparr>l_total := columnsOpened (newDate 2023 6 1 0 0) g\<rparr>)
                           (placedIn (newDate 2023 6 1 0 0) g))
                  (buildGroups [evA, evB, evC]))) = [2, 2, 2]"
    by code_simp
  from C2_cluster_total [OF d, of "newDate 2023 6 1 0 0"] r
  have "map l_total (computeLayouts [evA, evB, evC] (newDate 2023 6 1 0 0)) = [2, 2, 2]"
    by simp
  with d c show ?thesis by simp
qed

subsection \<open>C3: the chain A, B, C\<close>

text \<open>
  C3: for the events A 09:00-10:00, B 09:30-10:30 and C 10:15-11:00 of one day, with
  distinct ids and in any order in the input, there is a single cluster \<open>[A, B, C]\<close>;
  A and C get column 0, B gets column 1, and all three get the total 2.
\<close>

theorem C3_chain_overlap:
  assumes "a \<noteq> b" "a \<noteq> c" "b \<noteq> c"
    and A: "A = \<lparr> e_id = a, e_start = Some (newDate y m d 9 0),
                   e_end = Some (newDate y m d 10 0) \<rparr>"
    and B: "B = \<lparr> e_id = b, e_start = Some (newDate y m d 9 30),
                   e_end = Some (newDate y m d 10 30) \<rparr>"
    and C: "C = \<lparr> e_id = c, e_start = Some (newDate y m d 10 15),
                   e_end = Some (newDate y m d 11 0) \<rparr>"
    and evs: "events \<in> {[A, B, C], [A, C, B], [B, A, C], [B, C, A], [C, A, B], [C, B, A]}"
  shows "buildGroups events = [[A, B, C]] \<and>
         map summary (computeLayouts events viewDate) = [(A, 0, 2), (B, 1, 2), (C, 0, 2)]"
proof -
  have s: "sortedEvents events = [A, B, C]"
    using evs unfolding A B C
    by (auto simp: sortedEvents_def compareStart_def newDate_def getTime_def)
  have g: "groupEvents [A, B, C] [] [] = [[A, B, C]]"
    unfolding A B C
    by (simp add: overlapsWith_def endOf_def newDate_def getTime_def)
  have l: "map summary (layoutGroups viewDate [[A, B, C]] []) = [(A, 0, 2), (B, 1, 2), (C, 0, 2)]"
    unfolding A B C using assms(1-3)
    by (simp add: layoutGroup_def newLayout_def endOf_def newDate_def getTime_def summary_def)
  show ?thesis using s g l by (simp add: buildGroups_def computeLayouts_def)
qed

theorem C3_chain_overlap_witness:
  "buildGroups [evC, evA, evB] = [[evA, evB, evC]] \<and>
   map summary (computeLayouts [evC, evA, evB] (newDate 2023 6 1 0 0))
     = [(evA, 0, 2), (evB, 1, 2), (evC, 0, 2)]"
  using C3_chain_overlap [of "''A''" "''B''" "''C''" evA 2023 6 1 evB evC "[evC, evA, evB]"
      "newDate 2023 6 1 0 0"]
  by (simp add: evA_def evB_def evC_def)

subsection \<open>C4: a multi-day event on its middle day\<close>

text \<open>
  C4, as stated, fails: with one hour at 60 pixels the rectangle is 1439 pixels high,
  not 24 * 60 = 1440. The end of the day is 23:59:59.999 and the projection reads hours
  and minutes only.
\<close>

theorem C4_counterexample:
  "map p_height (calculateEventPositions [evM] 0 60 (newDate 2023 6 2 0 0)) = [1439] \<and>
   (1439 :: rat) \<noteq> 24 * 60"
  by code_simp

text \<open>
  C4, amended: for the event from 2023-06-01 22:00 to 2023-06-03 02:00 and the viewed
  day 2023-06-02 (at 00:00), both continuation flags are set, the displayed start is
  2023-06-02 00:00, the displayed end is 2023-06-02 23:59:59.999, top is
  \<open>- startHour * hourHeight\<close> (zero for \<open>startHour = 0\<close>) and the height is
  \<open>1439 / 60 * hourHeight\<close>, one minute short of the height of the day.
\<close>

theorem C4_multi_day_clamping:
  fixes i :: string and startHour hourHeight :: rat
  defines "e \<equiv> \<lparr> e_id = i, e_start = Some (newDate 2023 6 1 22 0),
                    e_end = Some (newDate 2023 6 3 2 0) \<rparr>"
  defines "viewDay \<equiv> newDate 2023 6 2 0 0"
  defines "item \<equiv> \<lparr> l_event = e, l_column = 0, l_total = 1, l_isMultiDay = True,
                      l_continuesNextDay = True, l_continuesFromPrevDay = True \<rparr>"
  shows "computeLayouts [e] viewDay = [item] \<and>
         adjustedStartTime viewDay item (newDate 2023 6 1 22 0) = newDate 2023 6 2 0 0 \<and>
         adjustedEndTime viewDay item (newDate 2023 6 3 2 0) = newDate 2023 6 2 23 59 + 59999 \<and>
         calculateEventPositions [e] startHour hourHeight viewDay =
           [\<lparr> p_event = e, p_top = - (startHour * hourHeight),
               p_height = 1439 / 60 * hourHeight,
               p_left = Some 0, p_width = Some 100,
               p_isMultiDay = True, p_continuesNextDay = True,
               p_continuesFromPrevDay = True \<rparr>]"
proof -
  have l: "computeLayouts [e] viewDay = [item]"
    unfolding e_def item_def viewDay_def
    by (simp add: single_layout newLayout_def isMultiDayEvent_def continuesNextDay_def
        isContinuedFromPreviousDay_def newDate_fields days_2023_06)
  have a: "adjustedStartTime viewDay item (newDate 2023 6 1 22 0) = newDate 2023 6 2 0 0"
    by (simp add: adjustedStartTime_def item_def viewDay_def)
  have b: "adjustedEndTime viewDay item (newDate 2023 6 3 2 0) = newDate 2023 6 2 23 59 + 59999"
    by (simp add: adjustedEndTime_def item_def viewDay_def setHours_def newDate_fields)
      (simp add: newDate_def)
  have c: "calculateEventPositions [e] startHour hourHeight viewDay =
           [\<lparr> p_event = e, p_top = - (startHour * hourHeight),
               p_height = 1439 / 60 * hourHeight,
               p_left = Some 0, p_width = Some 100,
               p_isMultiDay = True, p_continuesNextDay = True,
               p_continuesFromPrevDay = True \<rparr>]"
    unfolding calculateEventPositions_def l
    by (simp add: List.map_filter_def position_def item_def e_def
        adjustedStartTime_def adjustedEndTime_def viewDay_def
        minutesOf_def newDate_fields setHours_fields)
  from l a b c show ?thesis by simp
qed

subsection \<open>C5: pixel projection\<close>




subsection \<open>C6: effective interval and the multi-day flag\<close>

text \<open>
  C6, as stated, fails: \<open>evL\<close> starts at 23:45 and has no end, its effective end is
  00:15 of the next day, and it is not flagged as multi-day.
\<close>

theorem C6_counterexample:
  "e_end evL = None \<and>
   toDateString (effectiveStart evL) \<noteq> toDateString (effectiveEnd evL) \<and>
   map p_isMultiDay (calculateEventPositions [evL] 0 60 (newDate 2023 6 1 0 0)) = [False]"
  by code_simp

text \<open>
  C6, amended: the effective end of an event is its end, or its start plus thirty
  minutes when it has no end; a returned rectangle is flagged multi-day exactly when
  its event has an end and the calendar dates of its start and of that end differ. An
  event without end is never flagged, also when its thirty minutes cross midnight.
\<close>

theorem C6_effective_interval_and_multi_day:
  "(\<forall>e s. e_start e = Some s \<longrightarrow>
      effectiveStart e = s \<and>
      effectiveEnd e = (case e_end e of Some en \<Rightarrow> en | None \<Rightarrow> s + 30 * 60 * 1000)) \<and>
   (\<forall>p\<in>set (calculateEventPositions events startHour hourHeight viewDate).
      e_start (p_event p) \<noteq> None \<and>
      p_isMultiDay p =
        (case e_end (p_event p) of None \<Rightarrow> False
         | Some en \<Rightarrow> toDateString (effectiveStart (p_event p)) \<noteq> toDateString en))"
proof -
  have 1: "effectiveStart e = s \<and>
      effectiveEnd e = (case e_end e of Some en \<Rightarrow> en | None \<Rightarrow> s + 30 * 60 * 1000)"
    if "e_start e = Some s" for e s
    using that by (simp add: effectiveStart_def effectiveEnd_def endOf_def getTime_def
        split: option.splits)
  have 2: "e_start (p_event p) \<noteq> None \<and>
      p_isMultiDay p =
        (case e_end (p_event p) of None \<Rightarrow> False
         | Some en \<Rightarrow> toDateString (effectiveStart (p_event p)) \<noteq> toDateString en)"
    if "p \<in> set (calculateEventPositions events startHour hourHeight viewDate)" for p
  proof -
    from that obtain item where i: "item \<in> set (computeLayouts events viewDate)"
      and p: "position startHour hourHeight viewDate item = Some p"
      by (rule positioned_of_layout)
    have "l_isMultiDay item = isMultiDayEvent (l_event item)"
      using i by (rule layout_flags)
    with p show ?thesis
      by (auto simp: position_def isMultiDayEvent_def effectiveStart_def Let_def
          split: option.splits)
  qed
  from 1 2 show ?thesis by blast
qed

theorem C6_effective_interval_and_multi_day_witness:
  "effectiveEnd evL = newDate 2023 6 1 23 45 + 30 * 60 * 1000 \<and>
   map p_event (calculateEventPositions [evM] 0 60 (newDate 2023 6 2 0 0)) = [evM] \<and>
   map p_isMultiDay (calculateEventPositions [evM] 0 60 (newDate 2023 6 2 0 0)) = [True]"
proof -
  let ?vd = "newDate 2023 6 2 0 0"
  note inst = C6_effective_interval_and_multi_day [of "[evM]" 0 60 ?vd]
  have "e_start evL = Some (newDate 2023 6 1 23 45)"
    by (simp add: evL_def)
  with inst have "effectiveEnd evL
      = (case e_end evL of Some en \<Rightarrow> en | None \<Rightarrow> newDate 2023 6 1 23 45 + 30 * 60 * 1000)"
    by blast
  then have 1: "effectiveEnd evL = newDate 2023 6 1 23 45 + 30 * 60 * 1000"
    by (simp add: evL_def)
  have ev: "map p_event (calculateEventPositions [evM] 0 60 ?vd) = [evM]"
    by code_simp
  then obtain p where out: "calculateEventPositions [evM] 0 60 ?vd = [p]" and p: "p_event p = evM"
    by auto
  then have "p \<in> set (calculateEventPositions [evM] 0 60 ?vd)"
    by simp
  with inst have "p_isMultiDay p =
        (case e_end (p_event p) of None \<Rightarrow> False
         | Some en \<Rightarrow> toDateString (effectiveStart (p_event p)) \<noteq> toDateString en)"
    by blast
  then have "p_isMultiDay p"
    by (simp add: p evM_def effectiveStart_def newDate_fields days_2023_06)
  with 1 ev out show ?thesis by simp
qed

subsection \<open>C7: touching intervals\<close>

text \<open>
  C7: two events with a start, the first ending exactly when the second starts, do
  not pass the overlap test in either direction and, alone in the input in either
  order, form two clusters of one event each. An event whose start equals the
  effective end of the last event of column \<open>i\<close> is placed into an existing column, of
  index at most \<open>i\<close>, and no column is opened.
\<close>

theorem C7_touching_is_adjacent:
  "(e_start a \<noteq> None \<and> e_start b \<noteq> None \<and> effectiveEnd a = effectiveStart b \<longrightarrow>
      \<not> overlapsWith (effectiveStart b) (effectiveEnd b) a \<and>
      \<not> overlapsWith (effectiveStart a) (effectiveEnd a) b \<and>
      buildGroups [a, b] \<in> {[[a], [b]], [[b], [a]]} \<and>
      buildGroups [b, a] \<in> {[[a], [b]], [[b], [a]]}) \<and>
   (i < length columns \<and> e_start (columns ! i) \<noteq> None \<and> e_start e = Some s \<and>
    effectiveEnd (columns ! i) = s \<longrightarrow>
      (\<exists>k\<le>i. findColumn columns s = Some k \<and>
         placeEvents viewDate [e] columns ls = (columns[k := e], ls @ [newLayout viewDate e k])))"
proof -
  have first: "\<not> overlapsWith (effectiveStart b) (effectiveEnd b) a \<and>
      \<not> overlapsWith (effectiveStart a) (effectiveEnd a) b \<and>
      buildGroups [a, b] \<in> {[[a], [b]], [[b], [a]]} \<and>
      buildGroups [b, a] \<in> {[[a], [b]], [[b], [a]]}"
    if "e_start a \<noteq> None" "e_start b \<noteq> None" "effectiveEnd a = effectiveStart b"
  proof -
    from that obtain s1 s2 where s: "e_start a = Some s1" "e_start b = Some s2" by auto
    have t: "endOf a s1 = s2" using that(3) s by (simp add: effectiveEnd_def effectiveStart_def)
    have o1: "\<not> overlapsWith (effectiveStart b) (effectiveEnd b) a"
      using s t by (simp add: overlapsWith_def effectiveStart_def getTime_def)
    have o2: "\<not> overlapsWith (effectiveStart a) (effectiveEnd a) b"
      using s t by (simp add: overlapsWith_def effectiveStart_def effectiveEnd_def getTime_def)
    have o1': "\<not> overlapsWith s2 (endOf b s2) a"
      using o1 s by (simp add: effectiveStart_def effectiveEnd_def)
    have o2': "\<not> overlapsWith s1 (endOf a s1) b"
      using o2 s by (simp add: effectiveStart_def effectiveEnd_def)
    have g1: "buildGroups [a, b] \<in> {[[a], [b]], [[b], [a]]}"
      using s o1' o2' by (simp add: buildGroups_def sortedEvents_def)
    have g2: "buildGroups [b, a] \<in> {[[a], [b]], [[b], [a]]}"
      using s o1' o2' by (simp add: buildGroups_def sortedEvents_def)
    from o1 o2 g1 g2 show ?thesis by simp
  qed
  have second: "\<exists>k\<le>i. findColumn columns s = Some k \<and>
         placeEvents viewDate [e] columns ls = (columns[k := e], ls @ [newLayout viewDate e k])"
    if "i < length columns" "e_start (columns ! i) \<noteq> None" "e_start e = Some s"
      "effectiveEnd (columns ! i) = s"
  proof -
    from findColumn_reuse [of i columns s] that
    obtain k where "k \<le> i" "findColumn columns s = Some k"
      by (auto simp: hasStart_def)
    with that(3) show ?thesis by (auto simp: getTime_def)
  qed
  from first second show ?thesis by blast
qed

theorem C7_touching_is_adjacent_witness:
  "effectiveEnd evA = effectiveStart evD \<and>
   buildGroups [evA, evD] = [[evA], [evD]] \<and>
   placeEvents (newDate 2023 6 1 0 0) [evD] [evA, evB] []
     = ([evD, evB], [newLayout (newDate 2023 6 1 0 0) evD 0])"
proof -
  have t: "effectiveEnd evA = effectiveStart evD" by code_simp
  have h: "e_start evA \<noteq> None \<and> e_start evD \<noteq> None \<and> effectiveEnd evA = effectiveStart evD"
    using t by (simp add: evA_def evD_def)
  have n: "buildGroups [evA, evD] \<noteq> [[evD], [evA]]" by code_simp
  have c: "0 < length [evA, evB] \<and> e_start ([evA, evB] ! 0) \<noteq> None \<and>
    e_start evD = Some (newDate 2023 6 1 10 0) \<and>
    effectiveEnd ([evA, evB] ! 0) = newDate 2023 6 1 10 0"
    by (simp add: evA_def evD_def effectiveEnd_def endOf_def)
  note inst = C7_touching_is_adjacent [where a = evA and b = evD and i = 0
      and columns = "[evA, evB]" and e = evD and s = "newDate 2023 6 1 10 0"
      and viewDate = "newDate 2023 6 1 0 0" and ls = "[]"]
  from inst h n have g: "buildGroups [evA, evD] = [[evA], [evD]]"
    by blast
  from inst c have "placeEvents (newDate 2023 6 1 0 0) [evD] [evA, evB] []
     = ([evD, evB], [newLayout (newDate 2023 6 1 0 0) evD 0])"
    by auto
  with t g show ?thesis by simp
qed

subsection \<open>C8: events without start\<close>

text \<open>
  C8: events without start are dropped where the function is called. The call returns
  one rectangle for every event of the list that has a start, in ascending order of
  start and, among equal starts, in the order of the list; an event without start has
  no rectangle, and the result is the same with and without it. Inside the function
  the grouping stage skips an event without start as well. Every function of the
  model is total: nothing raises.
\<close>

theorem C8_start_less_events_skipped:
  "map p_event (callSiteLayouts dayEvents startHour hourHeight dayItem)
     = sort_key effectiveStart (filter (\<lambda>e. e_start e \<noteq> None) dayEvents) \<and>
   (e_start n = None \<longrightarrow>
      callSiteLayouts (xs @ n # ys) startHour hourHeight dayItem
        = callSiteLayouts (xs @ ys) startHour hourHeight dayItem) \<and>
   groupEvents sortedArray groups currentGroup
     = groupEvents (filter (\<lambda>e. e_start e \<noteq> None) sortedArray) groups currentGroup"
proof -
  have "\<forall>e\<in>set (passedEvents dayEvents). hasStart e"
    by (simp add: passedEvents_def hasStart_def)
  then have 1: "map p_event (callSiteLayouts dayEvents startHour hourHeight dayItem)
     = sort_key effectiveStart (filter (\<lambda>e. e_start e \<noteq> None) dayEvents)"
    unfolding callSiteLayouts_def
    by (simp only: positions_events) (simp add: passedEvents_def)
  have 2: "callSiteLayouts (xs @ n # ys) startHour hourHeight dayItem
        = callSiteLayouts (xs @ ys) startHour hourHeight dayItem" if "e_start n = None"
    using that by (simp add: callSiteLayouts_def passedEvents_def)
  from 1 2 groupEvents_skips show ?thesis by blast
qed

theorem C8_start_less_events_skipped_witness:
  "e_start evN = None \<and>
   callSiteLayouts [evX, evN, evY] 0 60 (newDate 2023 6 1 0 0)
     = callSiteLayouts [evX, evY] 0 60 (newDate 2023 6 1 0 0) \<and>
   map (\<lambda>p. (p_event p, p_left p, p_width p))
     (callSiteLayouts [evX, evY] 0 60 (newDate 2023 6 1 0 0))
     = [(evY, Some 0, Some 50), (evX, Some 50, Some 50)]"
proof -
  have n: "e_start evN = None"
    by (simp add: evN_def)
  have r: "map (\<lambda>p. (p_event p, p_left p, p_width p))
     (callSiteLayouts [evX, evY] 0 60 (newDate 2023 6 1 0 0))
     = [(evY, Some 0, Some 50), (evX, Some 50, Some 50)]"
    by code_simp
  from C8_start_less_events_skipped [where n = evN and xs = "[evX]" and ys = "[evY]"
      and startHour = 0 and hourHeight = 60 and dayItem = "newDate 2023 6 1 0 0"
      and dayEvents = "[]" and sortedArray = "[]" and groups = "[]" and currentGroup = "[]"] n
  have "callSiteLayouts [evX, evN, evY] 0 60 (newDate 2023 6 1 0 0)
     = callSiteLayouts [evX, evY] 0 60 (newDate 2023 6 1 0 0)"
    by simp
  with n r show ?thesis by blast
qed

subsection \<open>C9: identical intervals\<close>

text \<open>
  C9, as stated, fails for intervals of length zero: two events that start and end at
  09:00 do not pass the overlap test, form two clusters, and each gets column 0 and
  total 1.
\<close>

theorem C9_counterexample:
  "effectiveStart evZ1 = effectiveStart evZ2 \<and> effectiveEnd evZ1 = effectiveEnd evZ2 \<and>
   e_id evZ1 \<noteq> e_id evZ2 \<and>
   buildGroups [evZ1, evZ2] = [[evZ1], [evZ2]] \<and>
   map summary (computeLayouts [evZ1, evZ2] (newDate 2023 6 1 0 0))
     = [(evZ1, 0, 1), (evZ2, 0, 1)]"
  by code_simp

text \<open>
  C9, amended: for a non-empty input of events with distinct ids that all have the
  same start and the same effective end, the start before the end, there is a single
  cluster, the k-th event of the input gets column k, and every event gets the number
  of events as total.
\<close>

theorem C9_identical_intervals:
  assumes "\<forall>e\<in>set events. e_start e = Some s \<and> endOf e s = en"
    and "s < en" and "events \<noteq> []" and "distinct (map e_id events)"
  shows "buildGroups events = [events] \<and>
         map summary (computeLayouts events viewDate)
           = map (\<lambda>(k, e). (e, k, length events)) (enumerate 0 events)"
proof -
  have same: "\<forall>e\<in>set events. sameInterval s en e"
    using assms(1) by (simp add: sameInterval_def)
  have g: "buildGroups events = [events]"
    using same assms(2,3) by (rule buildGroups_same)
  have p: "placeEvents viewDate events [] [] =
     (events, map (\<lambda>(k, e). newLayout viewDate e k) (enumerate 0 events))"
    using placeEvents_same [OF same _ assms(2), of "[]" viewDate "[]"] by simp
  have "computeLayouts events viewDate = groupLayouts viewDate events"
    using computeLayouts_blocks [OF assms(4), of viewDate] by (simp add: g)
  then have "map summary (computeLayouts events viewDate)
      = map (\<lambda>(k, e). (e, k, length events)) (enumerate 0 events)"
    by (simp add: groupLayouts_def columnsOpened_def placedIn_def p summary_def newLayout_def
        case_prod_unfold comp_def)
  with g show ?thesis by simp
qed

theorem C9_identical_intervals_witness:
  "newDate 2023 6 1 9 0 < newDate 2023 6 1 9 30 \<and>
   distinct (map e_id [evI1, evI2, evI3]) \<and>
   buildGroups [evI1, evI2, evI3] = [[evI1, evI2, evI3]] \<and>
   map summary (computeLayouts [evI1, evI2, evI3] (newDate 2023 6 1 0 0))
     = [(evI1, 0, 3), (evI2, 1, 3), (evI3, 2, 3)]"
proof -
  have h1: "\<forall>e\<in>set [evI1, evI2, evI3].
      e_start e = Some (newDate 2023 6 1 9 0) \<and>
      endOf e (newDate 2023 6 1 9 0) = newDate 2023 6 1 9 30"
    by (simp add: evI1_def evI2_def evI3_def endOf_def getTime_def newDate_def)
  have h2: "newDate 2023 6 1 9 0 < newDate 2023 6 1 9 30"
    by (simp add: newDate_def)
  have h3: "[evI1, evI2, evI3] \<noteq> []" by simp
  have h4: "distinct (map e_id [evI1, evI2, evI3])"
    by (simp add: evI1_def evI2_def evI3_def)
  have e: "enumerate 0 [evI1, evI2, evI3] = [(0, evI1), (1, evI2), (2, evI3)]"
    by (simp add: enumerate_eq_zip upt_rec)
  from C9_identical_intervals [OF h1 h2 h3 h4, of "newDate 2023 6 1 0 0"] h2 h4
  show ?thesis by (simp add: e)
qed

end
